theory Spec2Isabelle
  imports Complex_Main
begin

section \<open>Python values, exceptions and list objects\<close>

text \<open>
  The program is the script \<^verbatim>\<open>avg.py\<close>: for every histogram read from the log it prints
  the pixel count, a bar chart, the weighted sum obtained by a tree reduction, and the two
  luminance statistics; after the loop it defines \<^verbatim>\<open>colorToBin\<close>.

  Python's unbounded \<^verbatim>\<open>int\<close> is \<^typ>\<open>int\<close>. A Python \<^verbatim>\<open>float\<close> is modelled as a
  \<^typ>\<open>real\<close>: rounding is not modelled, and the places where Python raises instead of
  producing an infinity are branches of the model. The exceptions the modelled
  statements can raise:
\<close>

datatype pyerror = IndexError | ZeroDivisionError | ValueError | OverflowError

text \<open>\<^verbatim>\<open>xs[i]\<close> for an index that is never negative here.\<close>

definition getitem :: "int list \<Rightarrow> nat \<Rightarrow> pyerror + int" where
  "getitem xs i = (if i < length xs then Inr (xs ! i) else Inl IndexError)"

text \<open>
  Every result at or beyond this bound rounds to an infinity in binary64, which is where
  the operations below raise \<^verbatim>\<open>OverflowError\<close>.
\<close>

definition float_limit :: real where
  "float_limit = 2 ^ 1024 - 2 ^ 970"

text \<open>\<^verbatim>\<open>a / b\<close> on two Python ints (true division).\<close>

definition int_truediv :: "int \<Rightarrow> int \<Rightarrow> pyerror + real" where
  "int_truediv a b =
     (if b = 0 then Inl ZeroDivisionError
      else if float_limit \<le> \<bar>real_of_int a / real_of_int b\<bar> then Inl OverflowError
      else Inr (real_of_int a / real_of_int b))"

text \<open>\<^verbatim>\<open>math.log2(x)\<close>: a domain error for a non-positive argument.\<close>

definition math_log2 :: "real \<Rightarrow> pyerror + real" where
  "math_log2 x = (if x \<le> 0 then Inl ValueError else Inr (log 2 x))"

text \<open>
  \<^verbatim>\<open>int(math.ceil(math.log2(n)))\<close> for a list length \<open>n\<close>, computed on naturals
  (\<open>ceil_log2_eq\<close> below relates it to the real logarithm), and
  \<^verbatim>\<open>int(math.ceil(n / 2**i))\<close>.
\<close>

fun ceil_log2 :: "nat \<Rightarrow> nat" where
  "ceil_log2 n = (if n \<le> 1 then 0 else Suc (ceil_log2 ((n + 1) div 2)))"

declare ceil_log2.simps [simp del]

definition len_log2 :: "nat \<Rightarrow> pyerror + nat" where
  "len_log2 n = (if n = 0 then Inl ValueError else Inr (ceil_log2 n))"

definition cutoff_of :: "nat \<Rightarrow> nat \<Rightarrow> nat" where
  "cutoff_of n i = (n + 2 ^ i - 1) div 2 ^ i"

section \<open>The store of list objects\<close>

text \<open>
  Lists are mutable objects, so the variables \<^verbatim>\<open>histogram\<close> and \<^verbatim>\<open>histogramShared\<close>
  hold addresses into a store. \<open>top\<close> is the next unused address; a list display or
  comprehension allocates there.
\<close>

type_synonym addr = nat

record heap =
  cells :: "addr \<Rightarrow> int list"
  top :: addr

definition alloc :: "int list \<Rightarrow> heap \<Rightarrow> addr \<times> heap" where
  "alloc xs hp = (top hp, hp\<lparr>cells := (cells hp)(top hp := xs), top := Suc (top hp)\<rparr>)"

text \<open>The store after the list object at \<open>a\<close> has been given the contents \<open>xs\<close>.\<close>

definition store :: "addr \<Rightarrow> int list \<Rightarrow> heap \<Rightarrow> heap" where
  "store a xs hp = hp\<lparr>cells := (cells hp)(a := xs)\<rparr>"

text \<open>The store in which the sample loop finds the one histogram \<open>h\<close>, at address 0.\<close>

definition heap_of :: "int list \<Rightarrow> heap" where
  "heap_of h = \<lparr>cells = (\<lambda>a. if a = 0 then h else []), top = 1\<rparr>"

section \<open>The weighted reduction\<close>

text \<open>\<^verbatim>\<open>[x * i for i, x in enumerate(histogram)]\<close>\<close>

definition weighted :: "int list \<Rightarrow> int list" where
  "weighted h = map (\<lambda>(i, x). x * int i) (enumerate 0 h)"

text \<open>
  \<^verbatim>\<open>histogramShared[j] += histogramShared[j + cutoff]\<close> on the object at address \<open>a\<close>:
  the target is read first, then the right-hand side, then the sum is stored.
\<close>

definition iadd_item :: "addr \<Rightarrow> nat \<Rightarrow> nat \<Rightarrow> heap \<Rightarrow> pyerror + heap" where
  "iadd_item a j k hp =
     (case getitem (cells hp a) j of
        Inl e \<Rightarrow> Inl e
      | Inr x \<Rightarrow>
          (case getitem (cells hp a) k of
             Inl e \<Rightarrow> Inl e
           | Inr y \<Rightarrow> Inr (store a ((cells hp a)[j := x + y]) hp)))"

text \<open>
  \<^verbatim>\<open>for j in range(0, cutoff)\<close>, as recursion over the range. An exception leaves the
  store as the completed iterations made it.
\<close>

fun inner_loop :: "addr \<Rightarrow> nat \<Rightarrow> nat list \<Rightarrow> heap \<Rightarrow> heap \<times> pyerror option" where
  "inner_loop a cutoff [] hp = (hp, None)"
| "inner_loop a cutoff (j # js) hp =
     (case iadd_item a j (j + cutoff) hp of
        Inl e \<Rightarrow> (hp, Some e)
      | Inr hp' \<Rightarrow> inner_loop a cutoff js hp')"

text \<open>
  \<^verbatim>\<open>for i in range(1, levels + 1)\<close>; \<^verbatim>\<open>len(histogram)\<close> is read again at every level.
\<close>

fun levels_loop :: "addr \<Rightarrow> addr \<Rightarrow> nat list \<Rightarrow> heap \<Rightarrow> heap \<times> pyerror option" where
  "levels_loop ah a [] hp = (hp, None)"
| "levels_loop ah a (i # is) hp =
     (let cutoff = cutoff_of (length (cells hp ah)) i in
      case inner_loop a cutoff [0..<cutoff] hp of
        (hp', Some e) \<Rightarrow> (hp', Some e)
      | (hp', None) \<Rightarrow> levels_loop ah a is hp')"

text \<open>
  Lines 25 to 30: the comprehension binds \<^verbatim>\<open>histogramShared\<close> to a new list object, and
  the two loops fold it. The result is the store, the address held by
  \<^verbatim>\<open>histogramShared\<close>, and the exception if one was raised.
\<close>

definition reduction :: "addr \<Rightarrow> heap \<Rightarrow> heap \<times> addr \<times> pyerror option" where
  "reduction ah hp =
     (case alloc (weighted (cells hp ah)) hp of
        (a, hp1) \<Rightarrow>
          (case len_log2 (length (cells hp1 ah)) of
             Inl e \<Rightarrow> (hp1, a, Some e)
           | Inr levels \<Rightarrow>
               (case levels_loop ah a [1..<levels + 1] hp1 of
                  (hp2, r) \<Rightarrow> (hp2, a, r))))"

section \<open>The body of the sample loop\<close>

text \<open>
  \<^verbatim>\<open>math.ceil(x)\<close> on a float (an infinity, which is what an overflowing product is,
  raises), and the length of \<^verbatim>\<open>":" * n\<close>: a count above the largest index raises, a
  negative one gives the empty string. Running out of memory is not modelled.
\<close>

definition math_ceil :: "real \<Rightarrow> pyerror + int" where
  "math_ceil x = (if float_limit \<le> \<bar>x\<bar> then Inl OverflowError else Inr \<lceil>x\<rceil>)"

definition str_repeat :: "int \<Rightarrow> pyerror + nat" where
  "str_repeat n = (if 2 ^ 63 \<le> n then Inl OverflowError else Inr (nat n))"

text \<open>
  The bar chart, \<^verbatim>\<open>for i in range(0, 255)\<close>: what is printed is left out, the exceptions
  of the expressions evaluated for it are kept.
\<close>

fun print_loop :: "int list \<Rightarrow> int \<Rightarrow> nat list \<Rightarrow> pyerror option" where
  "print_loop h pixels [] = None"
| "print_loop h pixels (i # is) =
     (case getitem h i of
        Inl e \<Rightarrow> Some e
      | Inr x \<Rightarrow>
          (case int_truediv x pixels of
             Inl e \<Rightarrow> Some e
           | Inr ratio \<Rightarrow>
               (case math_ceil (ratio * 1000) of
                  Inl e \<Rightarrow> Some e
                | Inr n \<Rightarrow>
                    (case str_repeat n of
                       Inl e \<Rightarrow> Some e
                     | Inr w \<Rightarrow> print_loop h pixels is))))"

text \<open>The constants the loop body assigns, which \<^verbatim>\<open>colorToBin\<close> reads as globals.\<close>

definition minLogLum :: real where
  "minLogLum = - 8.0"

definition maxLogLum :: real where
  "maxLogLum = 3.5"

definition inverseLogLumRange :: real where
  "inverseLogLumRange = 1.0 / (maxLogLum - minLogLum)"

definition llr :: real where
  "llr = maxLogLum - minLogLum"

text \<open>\<^verbatim>\<open>2 ** x\<close> for a float \<open>x\<close>.\<close>

definition pow2 :: "real \<Rightarrow> pyerror + real" where
  "pow2 x = (if float_limit \<le> 2 powr x then Inl OverflowError else Inr (2 powr x))"

text \<open>The four values the body prints after the chart.\<close>

record stats =
  pixels :: int
  weighted_sum :: int
  wla :: real
  wal :: real

text \<open>
  One iteration of \<^verbatim>\<open>for histogram in samples\<close>, for the histogram object at address
  \<open>ah\<close>. \<^verbatim>\<open>max(1920 * 1080, 1.0)\<close> is the int 2073600.
\<close>

definition sample_body :: "addr \<Rightarrow> heap \<Rightarrow> heap \<times> (pyerror + stats)" where
  "sample_body ah hp =
     (let pix = sum_list (cells hp ah) in
      case print_loop (cells hp ah) pix [0..<255] of
        Some e \<Rightarrow> (hp, Inl e)
      | None \<Rightarrow>
          (case reduction ah hp of
             (hp', a, Some e) \<Rightarrow> (hp', Inl e)
           | (hp', a, None) \<Rightarrow>
               (case getitem (cells hp' a) 0 of
                  Inl e \<Rightarrow> (hp', Inl e)
                | Inr s \<Rightarrow>
                    (case int_truediv s (max (1920 * 1080) 1) of
                       Inl e \<Rightarrow> (hp', Inl e)
                     | Inr q \<Rightarrow>
                         (let w = q - 1.0 in
                          case pow2 (((w / 254.0) * llr) + minLogLum) of
                            Inl e \<Rightarrow> (hp', Inl e)
                          | Inr v \<Rightarrow>
                              (hp', Inr \<lparr>pixels = pix, weighted_sum = s,
                                         wla = w, wal = v\<rparr>))))))"

section \<open>The quantizer\<close>

text \<open>
  The arithmetic of \<^verbatim>\<open>colorToBin\<close> is over the reals. In binary64 the computed
  luminance and the computed \<^verbatim>\<open>logLum\<close> differ from these by rounding, so for an input
  that lies at a threshold or within the rounding error of one (0.005 for the luminance, 1.0
  for \<^verbatim>\<open>logLum\<close>), or whose luminance underflows to zero, the code can take the
  neighbouring branch; an int argument too large for a float makes the first multiplication
  raise, and the real arguments of the model include no such value. What the theorems of
  the claims conclude of the results (an exception, bin 0, a bin from 8 to 255, bin 255 at
  \<^verbatim>\<open>logLum\<close> 1) holds on either side of such a boundary.
\<close>

text \<open>\<^verbatim>\<open>int(x)\<close> on a finite float truncates towards zero.\<close>

definition int_of_float :: "real \<Rightarrow> int" where
  "int_of_float x = (if 0 \<le> x then \<lfloor>x\<rfloor> else \<lceil>x\<rceil>)"

definition lum :: "real \<Rightarrow> real \<Rightarrow> real \<Rightarrow> real" where
  "lum r g b = r * 0.21 + g * 0.71 + b * - 0.07"

text \<open>The local \<^verbatim>\<open>logLum\<close>, from the value \<open>l\<close> of \<^verbatim>\<open>math.log2(lum)\<close>.\<close>

definition logLum :: "real \<Rightarrow> real" where
  "logLum l = min (max ((l - minLogLum) * inverseLogLumRange) 0.0) 1.0"

text \<open>
  \<^verbatim>\<open>colorToBin\<close>. Its first statement prints \<^verbatim>\<open>math.log2(lum) - minLogLum\<close>, so the
  logarithm is evaluated before the threshold is tested.
\<close>

definition colorToBin :: "real \<Rightarrow> real \<Rightarrow> real \<Rightarrow> pyerror + int" where
  "colorToBin r g b =
     (case math_log2 (lum r g b) of
        Inl e \<Rightarrow> Inl e
      | Inr shown \<Rightarrow>
          if lum r g b < 0.005 then Inr 0
          else
            (case math_log2 (lum r g b) of
               Inl e \<Rightarrow> Inl e
             | Inr l \<Rightarrow> Inr (int_of_float (logLum l * 254.0 + 1.0))))"

section \<open>The reduction as the specification words it\<close>

text \<open>
  The specification's step 3 has the loops of the source with one difference: a fold is
  made only when the partner index \<open>j + cutoff\<close> is inside the array. These definitions
  follow the specification, on the weighted array as a value; they are not in the source.
\<close>

fun spec_fold :: "nat \<Rightarrow> nat list \<Rightarrow> int list \<Rightarrow> int list" where
  "spec_fold cutoff [] w = w"
| "spec_fold cutoff (j # js) w =
     spec_fold cutoff js
       (if j + cutoff < length w then w[j := w ! j + w ! (j + cutoff)] else w)"

fun spec_levels :: "nat list \<Rightarrow> int list \<Rightarrow> int list" where
  "spec_levels [] w = w"
| "spec_levels (i # is) w =
     (let cutoff = cutoff_of (length w) i in spec_levels is (spec_fold cutoff [0..<cutoff] w))"

definition spec_reduction :: "int list \<Rightarrow> int list" where
  "spec_reduction h = spec_levels [1..<ceil_log2 (length h) + 1] (weighted h)"

text \<open>The single-pass sum the reduction is compared with: the sum of \<open>i * histogram[i]\<close>.\<close>

definition linear_weighted_sum :: "int list \<Rightarrow> int" where
  "linear_weighted_sum h = sum_list (map (\<lambda>i. int i * h ! i) [0..<length h])"

section \<open>Levels and cutoffs\<close>

lemma cutoff_of_1: "cutoff_of n (Suc 0) = (n + 1) div 2"
  by (simp add: cutoff_of_def)

lemma ceil_log2_pos: "1 < n \<Longrightarrow> ceil_log2 n = Suc (ceil_log2 ((n + 1) div 2))"
  by (subst ceil_log2.simps) simp

lemma ceil_log2_upper: "n \<le> 2 ^ ceil_log2 n"
proof (induction n rule: ceil_log2.induct)
  case (1 n)
  show ?case
  proof (cases "n \<le> 1")
    case True
    then show ?thesis by (subst ceil_log2.simps) simp
  next
    case False
    then have "(n + 1) div 2 \<le> 2 ^ ceil_log2 ((n + 1) div 2)" using 1 by simp
    then have "n \<le> 2 * 2 ^ ceil_log2 ((n + 1) div 2)" by linarith
    with False show ?thesis by (subst ceil_log2.simps) simp
  qed
qed

lemma ceil_log2_lower: "1 < n \<Longrightarrow> 2 ^ ceil_log2 n + 2 \<le> 2 * n"
proof (induction n rule: ceil_log2.induct)
  case (1 n)
  define m where "m = (n + 1) div 2"
  have k: "ceil_log2 n = Suc (ceil_log2 m)"
    using "1.prems" by (subst ceil_log2.simps) (simp add: m_def)
  show ?case
  proof (cases "1 < m")
    case True
    then have "2 ^ ceil_log2 m + 2 \<le> 2 * m" using 1 by (simp add: m_def)
    moreover have "2 * m \<le> n + 1" by (simp add: m_def)
    ultimately show ?thesis by (simp add: k)
  next
    case False
    then have "n = 2" using "1.prems" by (simp add: m_def)
    then have "m = 1" by (simp add: m_def)
    then have "ceil_log2 m = 0" by (subst ceil_log2.simps) simp
    with k have "2 ^ ceil_log2 n = (2::nat)" by simp
    then show ?thesis using \<open>n = 2\<close> by linarith
  qed
qed

lemma ceil_log2_eq: "0 < n \<Longrightarrow> int (ceil_log2 n) = \<lceil>log 2 (real n)\<rceil>"
proof -
  assume n: "0 < n"
  show ?thesis
  proof (cases "n = 1")
    case True
    have "ceil_log2 1 = 0" by (subst ceil_log2.simps) simp
    with True show ?thesis by simp
  next
    case False
    then have n1: "1 < n" using n by simp
    define k where "k = ceil_log2 n"
    obtain k' where k': "k = Suc k'"
      using ceil_log2_pos [OF n1] by (simp add: k_def)
    have "2 ^ k' < n" using ceil_log2_lower [OF n1] by (simp add: k_def [symmetric] k')
    then have "real (2 ^ k') < real n" by (simp only: of_nat_less_iff)
    then have "log 2 (2 ^ k') < log 2 (real n)" by (subst log_less_cancel_iff) simp_all
    then have lo: "real k' < log 2 (real n)" by (simp add: log_nat_power)
    have "real n \<le> real (2 ^ k)" using ceil_log2_upper [of n] by (simp only: of_nat_le_iff k_def)
    then have "log 2 (real n) \<le> log 2 (2 ^ k)" using n by (subst log_le_cancel_iff) simp_all
    then have hi: "log 2 (real n) \<le> real k" by (simp add: log_nat_power)
    have "\<lceil>log 2 (real n)\<rceil> = int k"
      by (rule ceiling_unique) (use lo hi k' in simp_all)
    then show ?thesis by (simp add: k_def)
  qed
qed

lemma int_ceil_div:
  fixes a b :: int
  assumes "0 < b"
  shows "- (- a div b) = (a + b - 1) div b"
proof -
  define q r where "q = a div b" and "r = a mod b"
  have a: "a = r + q * b" by (simp add: q_def r_def)
  have r: "0 \<le> r" "r < b" using assms by (simp_all add: r_def)
  have b: "b \<noteq> 0" using assms by simp
  show ?thesis
  proof (cases "r = 0")
    case True
    have "a + b - 1 = (b - 1) + q * b" using a True by simp
    then have "(a + b - 1) div b = q + (b - 1) div b"
      by (simp only: div_mult_self1 [OF b])
    also have "(b - 1) div b = 0" using assms by simp
    finally have "(a + b - 1) div b = q" by simp
    moreover have "- a div b = - q"
      using True b by (simp add: zdiv_zminus1_eq_if q_def r_def)
    ultimately show ?thesis by simp
  next
    case False
    have "a + b - 1 = (r - 1) + (q + 1) * b" using a by (simp add: algebra_simps)
    then have "(a + b - 1) div b = (q + 1) + (r - 1) div b"
      by (simp only: div_mult_self1 [OF b])
    also have "(r - 1) div b = 0" using r False by simp
    finally have "(a + b - 1) div b = q + 1" by simp
    moreover have "- a div b = - q - 1"
      using False b by (simp add: zdiv_zminus1_eq_if q_def r_def)
    ultimately show ?thesis by simp
  qed
qed

lemma cutoff_of_eq: "int (cutoff_of n i) = \<lceil>real n / 2 ^ i\<rceil>"
proof -
  have "\<lceil>real n / 2 ^ i\<rceil> = \<lceil>real_of_int (int n) / real_of_int (2 ^ i)\<rceil>" by simp
  also have "\<dots> = - (- int n div 2 ^ i)" by (rule ceiling_divide_eq_div)
  also have "\<dots> = (int n + 2 ^ i - 1) div 2 ^ i" by (rule int_ceil_div) simp
  also have "int n + 2 ^ i - 1 = int (n + 2 ^ i - 1)"
  proof -
    have "1 \<le> n + 2 ^ i" by (simp add: Suc_le_eq trans_less_add2)
    then show ?thesis by (simp only: of_nat_diff of_nat_add of_nat_power of_nat_numeral of_nat_1)
  qed
  also have "int (n + 2 ^ i - 1) div 2 ^ i = int ((n + 2 ^ i - 1) div 2 ^ i)"
    by (simp add: zdiv_int)
  finally show ?thesis by (simp add: cutoff_of_def)
qed

section \<open>Properties of the loops\<close>

lemma cells_store [simp]: "cells (store a xs hp) = (cells hp)(a := xs)"
  by (simp add: store_def)

lemma top_store [simp]: "top (store a xs hp) = top hp"
  by (simp add: store_def)

lemma store_store [simp]: "store a ys (store a xs hp) = store a ys hp"
  by (simp add: store_def)

lemma store_same [simp]: "store a (cells hp a) hp = hp"
  by (simp add: store_def)

lemma iadd_item_other:
  "iadd_item a j k hp = Inr hp' \<Longrightarrow> b \<noteq> a \<Longrightarrow> cells hp' b = cells hp b"
  by (auto simp: iadd_item_def split: sum.splits)

lemma iadd_item_top: "iadd_item a j k hp = Inr hp' \<Longrightarrow> top hp' = top hp"
  by (auto simp: iadd_item_def split: sum.splits)

lemma iadd_item_length:
  "iadd_item a j k hp = Inr hp' \<Longrightarrow> length (cells hp' a) = length (cells hp a)"
  by (auto simp: iadd_item_def split: sum.splits)

lemma inner_loop_other:
  "b \<noteq> a \<Longrightarrow> cells (fst (inner_loop a c js hp)) b = cells hp b"
proof (induction js arbitrary: hp)
  case Nil
  show ?case by simp
next
  case (Cons j js)
  show ?case
  proof (cases "iadd_item a j (j + c) hp")
    case (Inl e)
    then show ?thesis by simp
  next
    case (Inr hp')
    with Cons show ?thesis by (simp add: iadd_item_other)
  qed
qed

lemma inner_loop_length:
  "length (cells (fst (inner_loop a c js hp)) b) = length (cells hp b)"
proof (induction js arbitrary: hp)
  case Nil
  show ?case by simp
next
  case (Cons j js)
  show ?case
  proof (cases "iadd_item a j (j + c) hp")
    case (Inl e)
    then show ?thesis by simp
  next
    case (Inr hp')
    have "length (cells hp' b) = length (cells hp b)"
      using Inr iadd_item_other [OF Inr, of b] iadd_item_length [OF Inr] by (cases "b = a") auto
    with Cons Inr show ?thesis by simp
  qed
qed

text \<open>A range that holds an index whose partner lies outside the list raises.\<close>

lemma inner_loop_IndexError:
  "j \<in> set js \<Longrightarrow> length (cells hp a) \<le> j + c \<Longrightarrow>
   snd (inner_loop a c js hp) = Some IndexError"
proof (induction js arbitrary: hp)
  case Nil
  then show ?case by simp
next
  case (Cons i js)
  show ?case
  proof (cases "iadd_item a i (i + c) hp")
    case (Inl e)
    then have "e = IndexError"
      by (auto simp: iadd_item_def getitem_def split: sum.splits if_splits)
    with Inl show ?thesis by simp
  next
    case (Inr hp')
    then have "i \<noteq> j"
      using Cons.prems(2) by (auto simp: iadd_item_def getitem_def split: sum.splits if_splits)
    with Cons.prems have "j \<in> set js" by simp
    moreover have "length (cells hp' a) \<le> j + c"
      using Cons.prems(2) iadd_item_length [OF Inr] by simp
    ultimately show ?thesis using Cons.IH Inr by simp
  qed
qed

lemma length_weighted [simp]: "length (weighted h) = length h"
  by (simp add: weighted_def)

text \<open>
  An odd length above 1 makes the first level read one past the end: the cutoff is
  \<open>(n + 1) div 2\<close>, and the index \<open>j = (n - 1) div 2\<close> has the partner \<open>n\<close>.
\<close>

lemma reduction_odd_length:
  assumes "odd (length (cells hp ah))" and "1 < length (cells hp ah)"
  shows "snd (snd (reduction ah hp)) = Some IndexError"
proof -
  define n where "n = length (cells hp ah)"
  define a where "a = top hp"
  define hp1 where "hp1 = hp\<lparr>cells := (cells hp)(a := weighted (cells hp ah)), top := Suc a\<rparr>"
  have len_ah: "length (cells hp1 ah) = n" by (simp add: hp1_def n_def)
  have len_a: "length (cells hp1 a) = n" by (simp add: hp1_def n_def)
  obtain m where lv: "ceil_log2 n = Suc m"
    using ceil_log2_pos [of n] assms(2) by (simp add: n_def)
  obtain rest where rng: "[Suc 0..<Suc (Suc m)] = Suc 0 # rest"
    by (simp add: upt_conv_Cons del: upt_Suc)
  define c where "c = (n + 1) div 2"
  define j where "j = (n - 1) div 2"
  have "odd n" "1 < n" using assms by (simp_all add: n_def)
  then have jc: "j < c" "n \<le> j + c"
    unfolding j_def c_def by presburger+
  have "snd (inner_loop a c [0..<c] hp1) = Some IndexError"
    by (rule inner_loop_IndexError [where j = j]) (use jc len_a in simp_all)
  then obtain hp2 where "inner_loop a c [0..<c] hp1 = (hp2, Some IndexError)"
    by (cases "inner_loop a c [0..<c] hp1") simp
  then have "levels_loop ah a [Suc 0..<Suc (Suc m)] hp1 = (hp2, Some IndexError)"
    unfolding rng by (simp add: len_ah cutoff_of_1 c_def)
  moreover have "cells hp1 ah \<noteq> []" using \<open>1 < n\<close> len_ah by auto
  ultimately show ?thesis
    using lv len_ah
    by (simp add: reduction_def alloc_def len_log2_def a_def [symmetric] hp1_def [symmetric]
        n_def [symmetric] del: upt_Suc)
qed

text \<open>The loops write to the object they are given and to no other.\<close>

lemma levels_loop_other:
  "b \<noteq> a \<Longrightarrow> cells (fst (levels_loop ah a is hp)) b = cells hp b"
proof (induction "is" arbitrary: hp)
  case Nil
  show ?case by simp
next
  case (Cons i "is")
  define c where "c = cutoff_of (length (cells hp ah)) i"
  obtain hp' r where il: "inner_loop a c [0..<c] hp = (hp', r)"
    by (cases "inner_loop a c [0..<c] hp")
  have o: "cells hp' b = cells hp b"
    using inner_loop_other [OF Cons.prems, of c "[0..<c]" hp] il by simp
  show ?case
  proof (cases r)
    case None
    with il o Cons show ?thesis by (simp add: c_def [symmetric])
  next
    case (Some e)
    with il o show ?thesis by (simp add: c_def [symmetric])
  qed
qed

lemma reduction_other:
  "b < top hp \<Longrightarrow> cells (fst (reduction ah hp)) b = cells hp b"
proof -
  assume b: "b < top hp"
  define hp1 where
    "hp1 = hp\<lparr>cells := (cells hp)(top hp := weighted (cells hp ah)), top := Suc (top hp)\<rparr>"
  have ne: "b \<noteq> top hp" using b by simp
  have c1: "cells hp1 b = cells hp b" using ne by (simp add: hp1_def)
  show ?thesis
  proof (cases "len_log2 (length (cells hp1 ah))")
    case (Inl e)
    then show ?thesis using c1 by (simp add: reduction_def alloc_def hp1_def [symmetric])
  next
    case (Inr k)
    obtain hp2 r where ll: "levels_loop ah (top hp) [1..<k + 1] hp1 = (hp2, r)"
      by (cases "levels_loop ah (top hp) [1..<k + 1] hp1")
    have "cells hp2 b = cells hp1 b"
      using levels_loop_other [OF ne, of ah "[1..<k + 1]" hp1] ll by simp
    then show ?thesis
      using Inr ll c1 by (simp add: reduction_def alloc_def hp1_def [symmetric] del: upt_Suc)
  qed
qed

lemma sample_body_other:
  "b < top hp \<Longrightarrow> cells (fst (sample_body ah hp)) b = cells hp b"
proof -
  assume b: "b < top hp"
  obtain hp' a r where red: "reduction ah hp = (hp', a, r)"
    by (cases "reduction ah hp")
  have "cells hp' b = cells hp b"
    using reduction_other [OF b, of ah] red by simp
  then show ?thesis
    by (simp add: sample_body_def red Let_def split: option.splits sum.splits)
qed

text \<open>
  The chart loop: a zero pixel count stops it at the first division; on non-negative entries
  with a positive sum every ratio lies between 0 and 1 and nothing is raised.
\<close>

lemma float_limit_big: "2 ^ 63 < float_limit"
  by (simp add: float_limit_def)

lemma print_loop_zero:
  "h \<noteq> [] \<Longrightarrow> print_loop h 0 (0 # is) = Some ZeroDivisionError"
  by (simp add: getitem_def int_truediv_def)

lemma print_loop_not_zero_division:
  "pix \<noteq> 0 \<Longrightarrow> print_loop h pix is \<noteq> Some ZeroDivisionError"
  by (induction "is")
    (auto simp: getitem_def int_truediv_def math_ceil_def str_repeat_def split: sum.splits if_splits)

lemma elem_le_sum_list:
  fixes xs :: "int list"
  shows "\<forall>x\<in>set xs. 0 \<le> x \<Longrightarrow> i < length xs \<Longrightarrow> xs ! i \<le> sum_list xs"
proof (induction xs arbitrary: i)
  case Nil
  then show ?case by simp
next
  case (Cons x xs)
  have "0 \<le> sum_list xs" using Cons.prems(1) by (simp add: sum_list_nonneg)
  then show ?case using Cons by (cases i) (auto simp: add_increasing)
qed

lemma print_loop_ok:
  assumes "\<forall>x\<in>set h. 0 \<le> x" and "0 < sum_list h"
  shows "\<forall>i\<in>set is. i < length h \<Longrightarrow> print_loop h (sum_list h) is = None"
proof (induction "is")
  case Nil
  show ?case by simp
next
  case (Cons i "is")
  then have i: "i < length h" by simp
  define q where "q = real_of_int (h ! i) / real_of_int (sum_list h)"
  have "0 \<le> h ! i" using assms(1) i by simp
  moreover have "h ! i \<le> sum_list h" using elem_le_sum_list [OF assms(1) i] .
  ultimately have q: "0 \<le> q" "q \<le> 1" using assms(2) by (simp_all add: q_def)
  then have q1000: "0 \<le> q * 1000" "q * 1000 \<le> 1000" by simp_all
  have td: "int_truediv (h ! i) (sum_list h) = Inr q"
    using assms(2) q float_limit_big by (simp add: int_truediv_def q_def [symmetric])
  have ce: "math_ceil (q * 1000) = Inr \<lceil>q * 1000\<rceil>"
    using q1000 float_limit_big by (simp add: math_ceil_def)
  have "\<lceil>q * 1000\<rceil> \<le> 1000" using q1000 by (simp add: ceiling_le_iff)
  then have sr: "str_repeat \<lceil>q * 1000\<rceil> = Inr (nat \<lceil>q * 1000\<rceil>)"
    by (simp add: str_repeat_def)
  show ?case using Cons i td ce sr by (simp add: getitem_def)
qed

section \<open>Properties of the sample body\<close>

text \<open>
  Which exceptions the body can end in: the reduction raises nothing but \<open>IndexError\<close>
  (and \<open>ValueError\<close> on an empty list), so a \<open>ZeroDivisionError\<close> comes from the chart
  loop alone.
\<close>

lemma sample_body_zero_sum:
  assumes "cells hp ah \<noteq> []" and "sum_list (cells hp ah) = 0"
  shows "sample_body ah hp = (hp, Inl ZeroDivisionError)"
proof -
  obtain rest where "[0..<255] = 0 # rest"
    by (simp add: upt_conv_Cons)
  then show ?thesis
    using print_loop_zero [OF assms(1), of rest] by (simp add: sample_body_def assms(2))
qed

lemma inner_loop_error:
  "snd (inner_loop a c js hp) = Some e \<Longrightarrow> e = IndexError"
proof (induction js arbitrary: hp)
  case Nil
  then show ?case by simp
next
  case (Cons j js)
  then show ?case
    by (cases "iadd_item a j (j + c) hp")
      (auto simp: iadd_item_def getitem_def split: sum.splits if_splits)
qed

lemma levels_loop_error:
  "snd (levels_loop ah a is hp) = Some e \<Longrightarrow> e = IndexError"
proof (induction "is" arbitrary: hp)
  case Nil
  then show ?case by simp
next
  case (Cons i "is")
  define c where "c = cutoff_of (length (cells hp ah)) i"
  obtain hp' r where il: "inner_loop a c [0..<c] hp = (hp', r)"
    by (cases "inner_loop a c [0..<c] hp")
  show ?case
  proof (cases r)
    case None
    with il Cons show ?thesis by (simp add: c_def [symmetric])
  next
    case (Some e')
    then have "e' = IndexError" using inner_loop_error [of a c "[0..<c]" hp e'] il by simp
    with Some il Cons.prems show ?thesis by (simp add: c_def [symmetric])
  qed
qed

lemma reduction_error:
  "snd (snd (reduction ah hp)) = Some e \<Longrightarrow> e = IndexError \<or> e = ValueError"
proof -
  assume e: "snd (snd (reduction ah hp)) = Some e"
  define hp1 where
    "hp1 = hp\<lparr>cells := (cells hp)(top hp := weighted (cells hp ah)), top := Suc (top hp)\<rparr>"
  show ?thesis
  proof (cases "len_log2 (length (cells hp1 ah))")
    case (Inl e')
    then have "e' = ValueError" by (auto simp: len_log2_def split: if_splits)
    with Inl e show ?thesis by (simp add: reduction_def alloc_def hp1_def [symmetric])
  next
    case (Inr k)
    obtain hp2 r where ll: "levels_loop ah (top hp) [1..<k + 1] hp1 = (hp2, r)"
      by (cases "levels_loop ah (top hp) [1..<k + 1] hp1")
    have "r = Some e"
      using e Inr ll by (simp add: reduction_def alloc_def hp1_def [symmetric] del: upt_Suc)
    then have "e = IndexError"
      using levels_loop_error [of ah "top hp" "[1..<k + 1]" hp1 e] ll by simp
    then show ?thesis by simp
  qed
qed

lemma sample_body_no_zero_division:
  assumes "sum_list (cells hp ah) \<noteq> 0"
  shows "snd (sample_body ah hp) \<noteq> Inl ZeroDivisionError"
proof -
  obtain hp' a r where red: "reduction ah hp = (hp', a, r)"
    by (cases "reduction ah hp")
  have r: "r \<noteq> Some ZeroDivisionError"
    using reduction_error [of ah hp ZeroDivisionError] red by auto
  show ?thesis
    using print_loop_not_zero_division [OF assms, of "cells hp ah" "[0..<255]"] r
    by (auto simp: sample_body_def red Let_def getitem_def int_truediv_def pow2_def
        split: option.splits sum.splits if_splits)
qed

lemma sample_body_255:
  assumes "length (cells hp ah) = 255" and "\<forall>x\<in>set (cells hp ah). 0 \<le> x"
    and "0 < sum_list (cells hp ah)"
  shows "snd (sample_body ah hp) = Inl IndexError"
proof -
  have "\<forall>i\<in>set [0..<255]. i < length (cells hp ah)" using assms(1) by simp
  then have pl: "print_loop (cells hp ah) (sum_list (cells hp ah)) [0..<255] = None"
    by (rule print_loop_ok [OF assms(2,3)])
  have "snd (snd (reduction ah hp)) = Some IndexError"
    by (rule reduction_odd_length) (simp_all add: assms(1))
  then obtain hp' a where "reduction ah hp = (hp', a, Some IndexError)"
    by (cases "reduction ah hp") auto
  then show ?thesis by (simp add: sample_body_def pl)
qed

section \<open>Properties of the quantizer\<close>

lemma log_2_200_le: "log 2 200 \<le> 23 / 3"
proof -
  have a: "3 * log 2 200 = log 2 (200 ^ 3)"
    by (subst log_nat_power) simp_all
  have b: "log 2 (2 ^ 23) = 23"
    by (subst log_nat_power) simp_all
  have "log 2 (200 ^ 3) \<le> log 2 (2 ^ 23)"
    by (subst log_le_cancel_iff) simp_all
  with a b show ?thesis by simp
qed

lemma logLum_bounds: "0 \<le> logLum l" "logLum l \<le> 1"
  by (simp_all add: logLum_def)

lemma colorToBin_nonpos: "lum r g b \<le> 0 \<Longrightarrow> colorToBin r g b = Inl ValueError"
  by (simp add: colorToBin_def math_log2_def)

lemma colorToBin_black:
  "0 < lum r g b \<Longrightarrow> lum r g b < 0.005 \<Longrightarrow> colorToBin r g b = Inr 0"
  by (simp add: colorToBin_def math_log2_def)

lemma colorToBin_bin:
  assumes "0.005 \<le> lum r g b"
  shows "colorToBin r g b = Inr \<lfloor>logLum (log 2 (lum r g b)) * 254 + 1\<rfloor>"
proof -
  have "0 \<le> logLum (log 2 (lum r g b)) * 254 + 1"
    using logLum_bounds(1) [of "log 2 (lum r g b)"] by simp
  with assms show ?thesis
    by (simp add: colorToBin_def math_log2_def int_of_float_def)
qed

text \<open>
  At the threshold the logarithm is \<open>- log 2 200\<close>, above \<open>- 23 / 3\<close> because
  \<open>200 ^ 3 \<le> 2 ^ 23\<close>; so \<open>logLum * 254\<close> is at least 7.
\<close>

lemma logLum_lower:
  assumes "0.005 \<le> x"
  shows "7 / 254 \<le> logLum (log 2 x)"
proof -
  have "log 2 (1 / 200) \<le> log 2 x"
    using assms by (subst log_le_cancel_iff) simp_all
  moreover have "log 2 (1 / 200) = - log 2 200"
    by (simp add: log_divide)
  ultimately have "- (23 / 3) \<le> log 2 x"
    using log_2_200_le by linarith
  then have "7 / 254 \<le> (log 2 x - minLogLum) * inverseLogLumRange"
    by (simp add: minLogLum_def maxLogLum_def inverseLogLumRange_def field_simps)
  then show ?thesis
    by (simp add: logLum_def)
qed

lemma logLum_one: "0 < x \<Longrightarrow> (logLum (log 2 x) = 1) = (2 powr 3.5 \<le> x)"
proof -
  assume x: "0 < x"
  have "(logLum (log 2 x) = 1) = (1 \<le> (log 2 x - minLogLum) * inverseLogLumRange)"
    by (auto simp: logLum_def min_def max_def)
  also have "\<dots> = (3.5 \<le> log 2 x)"
    by (simp add: minLogLum_def maxLogLum_def inverseLogLumRange_def field_simps)
  also have "\<dots> = (2 powr 3.5 \<le> x)"
    by (rule le_log_iff) (use x in simp_all)
  finally show ?thesis .
qed

lemma bin_255:
  "0 \<le> c \<Longrightarrow> c \<le> 1 \<Longrightarrow> (\<lfloor>c * 254 + 1\<rfloor> = (255::int)) = (c = (1::real))"
  by (auto simp: floor_eq_iff)

lemma colorToBin_top:
  assumes "0.005 \<le> lum r g b"
  shows "(colorToBin r g b = Inr 255) = (2 powr 3.5 \<le> lum r g b)"
proof -
  have "0 < lum r g b" using assms by simp
  then show ?thesis
    using colorToBin_bin [OF assms] bin_255 [OF logLum_bounds, of "log 2 (lum r g b)"]
      logLum_one [of "lum r g b"]
    by simp
qed

lemma colorToBin_bin_range:
  assumes "0.005 \<le> lum r g b"
  shows "\<exists>k. colorToBin r g b = Inr k \<and> 8 \<le> k \<and> k \<le> 255"
proof -
  define c where "c = logLum (log 2 (lum r g b))"
  have lo: "7 / 254 \<le> c" unfolding c_def by (rule logLum_lower [OF assms])
  have hi: "c \<le> 1" by (simp add: c_def logLum_bounds)
  have "8 \<le> c * 254 + 1" using lo by simp
  then have "8 \<le> \<lfloor>c * 254 + 1\<rfloor>" by (simp add: le_floor_iff)
  moreover have "c * 254 + 1 \<le> 255" using hi by simp
  then have "\<lfloor>c * 254 + 1\<rfloor> \<le> 255" by (simp add: floor_le_iff)
  ultimately show ?thesis
    using colorToBin_bin [OF assms] by (simp add: c_def)
qed

lemma two_powr_35_le_17: "(2::real) powr 3.5 \<le> 17"
proof -
  have "(2::real) powr 3.5 \<le> 2 powr 4" by (rule powr_mono) simp_all
  also have "\<dots> = 16" by simp
  finally show ?thesis by simp
qed

section \<open>Concrete histograms\<close>

lemma heap_of_simps [simp]: "cells (heap_of h) 0 = h" "top (heap_of h) = 1"
  by (simp_all add: heap_of_def)

lemma sum_list_update_int:
  fixes xs :: "int list"
  shows "k < length xs \<Longrightarrow> sum_list (xs[k := x]) = sum_list xs + x - xs ! k"
proof (induction xs arbitrary: k)
  case Nil
  then show ?case by simp
next
  case (Cons y ys)
  then show ?case by (cases k) simp_all
qed

section \<open>The clamped reduction\<close>

lemma spec_fold_length [simp]: "length (spec_fold c js w) = length w"
  by (induction js arbitrary: w) simp_all

lemma spec_fold_nth:
  "distinct js \<Longrightarrow> \<forall>j\<in>set js. j < c \<Longrightarrow> i < length w \<Longrightarrow>
   spec_fold c js w ! i =
     (if i \<in> set js \<and> i + c < length w then w ! i + w ! (i + c) else w ! i)"
proof (induction js arbitrary: w)
  case Nil
  show ?case by simp
next
  case (Cons j js)
  define w1 where "w1 = (if j + c < length w then w[j := w ! j + w ! (j + c)] else w)"
  have len: "length w1 = length w" by (simp add: w1_def)
  have j: "j < c" "j \<notin> set js" using Cons.prems by simp_all
  have IH: "spec_fold c js w1 ! i =
      (if i \<in> set js \<and> i + c < length w1 then w1 ! i + w1 ! (i + c) else w1 ! i)"
    using Cons.IH [of w1] Cons.prems len by simp
  have far: "w1 ! (i + c) = w ! (i + c)" using j by (simp add: w1_def)
  have near: "i \<noteq> j \<Longrightarrow> w1 ! i = w ! i" by (simp add: w1_def)
  have at: "i = j \<Longrightarrow> w1 ! i = (if j + c < length w then w ! j + w ! (j + c) else w ! j)"
    using Cons.prems(3) by (simp add: w1_def)
  show ?case
  proof (cases "i = j")
    case True
    then show ?thesis using IH j at len by (simp add: w1_def [symmetric])
  next
    case False
    then show ?thesis using IH near far len by (simp add: w1_def [symmetric])
  qed
qed

lemma sum_list_take_nth:
  fixes xs :: "int list"
  shows "sum_list (take c xs) = (\<Sum>i<c. if i < length xs then xs ! i else 0)"
proof (induction c)
  case 0
  show ?case by simp
next
  case (Suc c)
  show ?case
  proof (cases "c < length xs")
    case True
    then show ?thesis using Suc by (simp add: take_Suc_conv_app_nth)
  next
    case False
    then show ?thesis using Suc by simp
  qed
qed

lemma spec_fold_sum:
  assumes "c \<le> length w"
  shows "sum_list (take c (spec_fold c [0..<c] w)) = sum_list (take (2 * c) w)"
proof -
  have "sum_list (take c (spec_fold c [0..<c] w)) =
      (\<Sum>i<c. if i + c < length w then w ! i + w ! (i + c) else w ! i)"
    unfolding sum_list_take_nth
    by (rule sum.cong) (use assms in \<open>simp_all add: spec_fold_nth\<close>)
  also have "\<dots> = (\<Sum>i<c. w ! i) + (\<Sum>i<c. if i + c < length w then w ! (i + c) else 0)"
    by (simp add: sum.distrib [symmetric] cong: if_cong) (rule sum.cong, simp_all)
  also have "(\<Sum>i<c. w ! i) = sum_list (take c w)"
    unfolding sum_list_take_nth by (rule sum.cong) (use assms in simp_all)
  also have "(\<Sum>i<c. if i + c < length w then w ! (i + c) else 0) = sum_list (take c (drop c w))"
    unfolding sum_list_take_nth by (rule sum.cong) (use assms in \<open>auto simp: add.commute\<close>)
  also have "sum_list (take c w) + sum_list (take c (drop c w)) = sum_list (take (2 * c) w)"
    by (simp add: mult_2 take_add)
  finally show ?thesis .
qed

lemma cutoff_of_pow2: "l \<le> k \<Longrightarrow> cutoff_of (2 ^ k) l = 2 ^ (k - l)"
proof -
  assume l: "l \<le> k"
  have p: "(2::nat) ^ k = 2 ^ (k - l) * 2 ^ l"
    using l by (simp add: power_add [symmetric])
  have "(2::nat) ^ k + 2 ^ l - 1 = (2 ^ l - 1) + 2 ^ (k - l) * 2 ^ l"
    by (subst p) simp
  then have "cutoff_of (2 ^ k) l = ((2 ^ l - 1) + 2 ^ (k - l) * 2 ^ l) div 2 ^ l"
    by (simp only: cutoff_of_def)
  also have "\<dots> = 2 ^ (k - l) + (2 ^ l - 1) div 2 ^ l"
    by (subst div_mult_self1) simp_all
  also have "((2::nat) ^ l - 1) div 2 ^ l = 0" by simp
  finally show ?thesis by simp
qed

lemma cutoff_of_pow2_minus_1:
  "0 < l \<Longrightarrow> l \<le> k \<Longrightarrow> cutoff_of (2 ^ k - 1) l = 2 ^ (k - l)"
proof -
  assume l: "0 < l" "l \<le> k"
  have p: "(2::nat) ^ k = 2 ^ (k - l) * 2 ^ l"
    using l by (simp add: power_add [symmetric])
  have two: "(2::nat) \<le> 2 ^ l" using l(1) by (cases l) simp_all
  have one: "(1::nat) \<le> 2 ^ k" by simp
  have "(2::nat) ^ k - 1 + 2 ^ l - 1 = (2 ^ l - 2) + 2 ^ k"
    using two one by linarith
  also have "\<dots> = (2 ^ l - 2) + 2 ^ (k - l) * 2 ^ l"
    by (subst p) simp
  finally have "cutoff_of (2 ^ k - 1) l = ((2 ^ l - 2) + 2 ^ (k - l) * 2 ^ l) div 2 ^ l"
    by (simp only: cutoff_of_def)
  also have "\<dots> = 2 ^ (k - l) + (2 ^ l - 2) div 2 ^ l"
    by (subst div_mult_self1) simp_all
  also have "((2::nat) ^ l - 2) div 2 ^ l = 0" by simp
  finally show ?thesis by simp
qed

text \<open>
  Levels whose cutoffs are the powers of two below \<open>2 ^ k\<close>, on an array of at most
  \<open>2 ^ k\<close> entries: each level moves the sum of the first \<open>2 * cutoff\<close> entries into the
  first \<open>cutoff\<close>, so the last one leaves the whole sum at index 0.
\<close>

lemma spec_levels_sum:
  assumes "\<forall>l. i \<le> l \<and> l \<le> k \<longrightarrow> cutoff_of (length w) l = 2 ^ (k - l)"
    and "2 ^ (k + 1 - i) \<le> 2 * length w" and "i \<le> k + 1"
  shows "sum_list (take 1 (spec_levels [i..<k + 1] w)) = sum_list (take (2 ^ (k + 1 - i)) w)"
  using assms
proof (induction "k + 1 - i" arbitrary: i w)
  case 0
  then have "i = k + 1" by simp
  then show ?case by simp
next
  case (Suc d)
  then have ik: "i \<le> k" by simp
  then have rng: "[i..<k + 1] = i # [Suc i..<k + 1]" by (simp add: upt_conv_Cons)
  have c: "cutoff_of (length w) i = 2 ^ (k - i)" using Suc.prems(1) ik by simp
  define w1 where "w1 = spec_fold (2 ^ (k - i)) [0..<2 ^ (k - i)] w"
  have len: "length w1 = length w" by (simp add: w1_def)
  have e: "k + 1 - i = Suc (k - i)" using ik by simp
  have cl: "(2::nat) ^ (k - i) \<le> length w" using Suc.prems(2) ik by (simp add: Suc_diff_le)
  have s1: "sum_list (take (2 ^ (k - i)) w1) = sum_list (take (2 * 2 ^ (k - i)) w)"
    unfolding w1_def by (rule spec_fold_sum [OF cl])
  have d: "d = k + 1 - Suc i" using Suc.hyps(2) by simp
  have unf: "spec_levels [i..<k + 1] w = spec_levels [Suc i..<k + 1] w1"
    unfolding rng by (simp add: c w1_def Let_def del: upt_Suc)
  have "sum_list (take 1 (spec_levels [Suc i..<k + 1] w1)) =
      sum_list (take (2 ^ (k + 1 - Suc i)) w1)"
  proof (rule Suc.hyps(1) [OF d])
    show "\<forall>l. Suc i \<le> l \<and> l \<le> k \<longrightarrow> cutoff_of (length w1) l = 2 ^ (k - l)"
      using Suc.prems(1) len by simp
    show "2 ^ (k + 1 - Suc i) \<le> 2 * length w1" using cl len by simp
    show "Suc i \<le> k + 1" using ik by simp
  qed
  also have "\<dots> = sum_list (take (2 ^ (k - i)) w1)" by simp
  also have "\<dots> = sum_list (take (2 * 2 ^ (k - i)) w)" by (rule s1)
  also have "\<dots> = sum_list (take (2 ^ (k + 1 - i)) w)" using ik by (simp add: Suc_diff_le)
  finally show ?case by (simp only: unf)
qed

lemma spec_levels_length [simp]: "length (spec_levels is w) = length w"
  by (induction "is" arbitrary: w) (simp_all add: Let_def)

lemma sum_list_weighted: "sum_list (weighted h) = linear_weighted_sum h"
proof -
  have "weighted h = map (\<lambda>i. int i * h ! i) [0..<length h]"
    by (rule nth_equalityI) (simp_all add: weighted_def nth_enumerate_eq mult.commute)
  then show ?thesis by (simp add: linear_weighted_sum_def)
qed

lemma ceil_log2_255: "ceil_log2 255 = 8"
  by (simp add: ceil_log2.simps)

lemma spec_reduction_255:
  assumes "length h = 255"
  shows "spec_reduction h ! 0 = linear_weighted_sum h"
proof -
  have c: "\<forall>l. 1 \<le> l \<and> l \<le> 8 \<longrightarrow> cutoff_of (length (weighted h)) l = 2 ^ (8 - l)"
    using cutoff_of_pow2_minus_1 [of _ 8] by (simp add: assms)
  have "sum_list (take 1 (spec_levels [1..<8 + 1] (weighted h))) =
      sum_list (take (2 ^ (8 + 1 - 1)) (weighted h))"
    by (rule spec_levels_sum [OF c]) (simp_all add: assms)
  then have "sum_list (take 1 (spec_reduction h)) = sum_list (weighted h)"
    by (simp add: spec_reduction_def assms ceil_log2_255)
  moreover have "length (spec_reduction h) = 255"
    by (simp add: spec_reduction_def assms)
  ultimately show ?thesis
    by (cases "spec_reduction h") (simp_all add: sum_list_weighted)
qed

section \<open>The source against the clamped reduction\<close>

text \<open>Where every partner is in range the source's fold is the clamped one.\<close>

lemma inner_loop_spec_fold:
  "\<forall>j\<in>set js. j + c < length (cells hp a) \<Longrightarrow>
   inner_loop a c js hp = (store a (spec_fold c js (cells hp a)) hp, None)"
proof (induction js arbitrary: hp)
  case Nil
  show ?case by simp
next
  case (Cons j js)
  define hp' where "hp' = store a ((cells hp a)[j := cells hp a ! j + cells hp a ! (j + c)]) hp"
  have jc: "j + c < length (cells hp a)" using Cons.prems by simp
  then have st: "iadd_item a j (j + c) hp = Inr hp'"
    by (simp add: iadd_item_def getitem_def hp'_def)
  have "\<forall>i\<in>set js. i + c < length (cells hp' a)" using Cons.prems by (simp add: hp'_def)
  then have "inner_loop a c js hp' = (store a (spec_fold c js (cells hp' a)) hp', None)"
    by (rule Cons.IH)
  then show ?case using st jc by (simp add: hp'_def)
qed

lemma levels_loop_spec_levels:
  assumes "ah \<noteq> a" and "length (cells hp a) = length (cells hp ah)"
    and "\<forall>l\<in>set is. 2 * cutoff_of (length (cells hp ah)) l \<le> length (cells hp ah)"
  shows "levels_loop ah a is hp = (store a (spec_levels is (cells hp a)) hp, None)"
  using assms
proof (induction "is" arbitrary: hp)
  case Nil
  show ?case by simp
next
  case (Cons l "is")
  define c where "c = cutoff_of (length (cells hp ah)) l"
  define hp' where "hp' = store a (spec_fold c [0..<c] (cells hp a)) hp"
  have "2 * c \<le> length (cells hp a)" using Cons.prems by (simp add: c_def)
  then have "\<forall>j\<in>set [0..<c]. j + c < length (cells hp a)" by auto
  then have il: "inner_loop a c [0..<c] hp = (hp', None)"
    unfolding hp'_def by (rule inner_loop_spec_fold)
  have ah: "cells hp' ah = cells hp ah" using Cons.prems(1) by (simp add: hp'_def)
  have "levels_loop ah a is hp' = (store a (spec_levels is (cells hp' a)) hp', None)"
    by (rule Cons.IH) (use Cons.prems ah in \<open>simp_all add: hp'_def\<close>)
  then show ?case
    using il Cons.prems(2) by (simp add: c_def [symmetric] hp'_def)
qed

lemma ceil_log2_pow2: "ceil_log2 (2 ^ k) = k"
proof (induction k)
  case 0
  show ?case by (subst ceil_log2.simps) simp
next
  case (Suc k)
  have "1 < (2::nat) ^ Suc k" by (rule one_less_power) simp_all
  moreover have "((2::nat) ^ Suc k + 1) div 2 = 2 ^ k" by simp
  ultimately show ?case using Suc by (subst ceil_log2.simps) simp
qed

text \<open>
  On a histogram whose length is a power of two the source's reduction completes, and what
  it leaves at index 0 of \<^verbatim>\<open>histogramShared\<close> is the linear weighted sum.
\<close>

lemma reduction_pow2:
  assumes "length (cells hp ah) = 2 ^ k" and "ah < top hp"
  shows "\<exists>hp'. reduction ah hp = (hp', top hp, None) \<and>
      length (cells hp' (top hp)) = 2 ^ k \<and>
      cells hp' (top hp) ! 0 = linear_weighted_sum (cells hp ah)"
proof -
  define h where "h = cells hp ah"
  define a where "a = top hp"
  define hp1 where "hp1 = hp\<lparr>cells := (cells hp)(a := weighted h), top := Suc a\<rparr>"
  have ne: "ah \<noteq> a" using assms(2) by (simp add: a_def)
  have len: "length h = 2 ^ k" using assms(1) by (simp add: h_def)
  have c_ah: "cells hp1 ah = h" using ne by (simp add: hp1_def h_def)
  have c_a: "cells hp1 a = weighted h" by (simp add: hp1_def)
  have lv: "len_log2 (length (cells hp1 ah)) = Inr k"
    by (simp add: c_ah len len_log2_def ceil_log2_pow2)
  define w where "w = spec_levels [1..<k + 1] (weighted h)"
  have "\<forall>l\<in>set [1..<k + 1]. 2 * cutoff_of (length (cells hp1 ah)) l \<le> length (cells hp1 ah)"
  proof
    fix l assume "l \<in> set [1..<k + 1]"
    then have l: "0 < l" "l \<le> k" by auto
    then have "2 * (2::nat) ^ (k - l) = 2 ^ Suc (k - l)" by simp
    also have "\<dots> \<le> 2 ^ k" using l by (intro power_increasing) auto
    finally show "2 * cutoff_of (length (cells hp1 ah)) l \<le> length (cells hp1 ah)"
      using l by (simp add: c_ah len cutoff_of_pow2)
  qed
  then have ll: "levels_loop ah a [1..<k + 1] hp1 = (store a w hp1, None)"
    unfolding w_def c_a [symmetric]
    by (intro levels_loop_spec_levels ne) (simp add: c_ah c_a)
  have red: "reduction ah hp = (store a w hp1, a, None)"
    using lv ll
    by (simp add: reduction_def alloc_def a_def [symmetric] h_def [symmetric] hp1_def [symmetric]
        del: upt_Suc)
  have c: "\<forall>l. 1 \<le> l \<and> l \<le> k \<longrightarrow> cutoff_of (length (weighted h)) l = 2 ^ (k - l)"
    by (simp add: len cutoff_of_pow2)
  have "sum_list (take 1 w) = sum_list (take (2 ^ (k + 1 - 1)) (weighted h))"
    unfolding w_def by (rule spec_levels_sum [OF c]) (simp_all add: len)
  then have "sum_list (take 1 w) = linear_weighted_sum h"
    by (simp add: len sum_list_weighted)
  moreover have lw: "length w = 2 ^ k" by (simp add: w_def len)
  ultimately have "w ! 0 = linear_weighted_sum h"
    by (cases w) simp_all
  then show ?thesis using red lw by (simp add: a_def h_def)
qed

text \<open>A source run that completes has folded exactly as the clamped loops do.\<close>

lemma inner_loop_None:
  "snd (inner_loop a c js hp) = None \<Longrightarrow>
   fst (inner_loop a c js hp) = store a (spec_fold c js (cells hp a)) hp"
proof (induction js arbitrary: hp)
  case Nil
  show ?case by simp
next
  case (Cons j js)
  show ?case
  proof (cases "iadd_item a j (j + c) hp")
    case (Inl e)
    with Cons.prems show ?thesis by simp
  next
    case (Inr hp')
    then have jc: "j + c < length (cells hp a)"
      and hp': "hp' = store a ((cells hp a)[j := cells hp a ! j + cells hp a ! (j + c)]) hp"
      by (auto simp: iadd_item_def getitem_def split: if_splits)
    have "fst (inner_loop a c js hp') = store a (spec_fold c js (cells hp' a)) hp'"
      using Cons.prems Inr by (intro Cons.IH) simp
    then show ?thesis using Inr jc by (simp add: hp')
  qed
qed

lemma levels_loop_None:
  assumes "ah \<noteq> a" and "length (cells hp a) = length (cells hp ah)"
    and "snd (levels_loop ah a is hp) = None"
  shows "fst (levels_loop ah a is hp) = store a (spec_levels is (cells hp a)) hp"
  using assms
proof (induction "is" arbitrary: hp)
  case Nil
  show ?case by simp
next
  case (Cons l "is")
  define c where "c = cutoff_of (length (cells hp ah)) l"
  obtain hp' r where il: "inner_loop a c [0..<c] hp = (hp', r)"
    by (cases "inner_loop a c [0..<c] hp")
  have r: "r = None"
    using Cons.prems(3) il by (cases r) (simp_all add: c_def [symmetric])
  have hp': "hp' = store a (spec_fold c [0..<c] (cells hp a)) hp"
    using inner_loop_None [of a c "[0..<c]" hp] il r by simp
  have "fst (levels_loop ah a is hp') = store a (spec_levels is (cells hp' a)) hp'"
    by (rule Cons.IH)
      (use Cons.prems il r in \<open>simp_all add: hp' c_def [symmetric]\<close>)
  then show ?case
    using il r Cons.prems(2) by (simp add: c_def [symmetric] hp')
qed

lemma reduction_None:
  assumes "ah < top hp" and "snd (snd (reduction ah hp)) = None"
  shows "cells (fst (reduction ah hp)) (fst (snd (reduction ah hp))) = spec_reduction (cells hp ah)"
proof -
  define h where "h = cells hp ah"
  define a where "a = top hp"
  define hp1 where "hp1 = hp\<lparr>cells := (cells hp)(a := weighted h), top := Suc a\<rparr>"
  have ne: "ah \<noteq> a" using assms(1) by (simp add: a_def)
  have c_ah: "cells hp1 ah = h" using ne by (simp add: hp1_def h_def)
  have c_a: "cells hp1 a = weighted h" by (simp add: hp1_def)
  have unf: "reduction ah hp =
      (case len_log2 (length h) of
         Inl e \<Rightarrow> (hp1, a, Some e)
       | Inr levels \<Rightarrow>
           (case levels_loop ah a [1..<levels + 1] hp1 of (hp2, r) \<Rightarrow> (hp2, a, r)))"
    by (simp add: reduction_def alloc_def a_def [symmetric] h_def [symmetric]
        hp1_def [symmetric] c_ah del: upt_Suc)
  show ?thesis
  proof (cases "len_log2 (length h)")
    case (Inl e)
    with assms(2) unf show ?thesis by simp
  next
    case (Inr k)
    then have k: "k = ceil_log2 (length h)" by (auto simp: len_log2_def split: if_splits)
    obtain hp2 r where ll: "levels_loop ah a [1..<k + 1] hp1 = (hp2, r)"
      by (cases "levels_loop ah a [1..<k + 1] hp1")
    have r: "r = None" using assms(2) unf Inr ll by (simp del: upt_Suc)
    have "fst (levels_loop ah a [1..<k + 1] hp1) =
        store a (spec_levels [1..<k + 1] (cells hp1 a)) hp1"
      by (rule levels_loop_None [OF ne]) (use ll r in \<open>simp_all add: c_ah c_a del: upt_Suc\<close>)
    then have "hp2 = store a (spec_levels [1..<k + 1] (weighted h)) hp1"
      using ll by (simp add: c_a)
    then show ?thesis
      using unf Inr ll by (simp add: spec_reduction_def k h_def [symmetric] del: upt_Suc)
  qed
qed

lemma weighted_nth: "i < length h \<Longrightarrow> weighted h ! i = h ! i * int i"
  by (simp add: weighted_def nth_enumerate_eq)

text \<open>
  Completing is not enough: on an even length that is no power of two a later level folds
  an entry that an earlier level has already added. Six ones end with 18 at index 0, and
  their linear weighted sum is 15.
\<close>

lemma reduction_six_ones:
  "(case reduction 0 (heap_of [1, 1, 1, 1, 1, 1]) of (hp, a, r) \<Rightarrow> (cells hp a, r)) =
     ([18, 8, 7, 3, 4, 5], None) \<and>
   linear_weighted_sum [1, 1, 1, 1, 1, 1] = 15"
  by code_simp

lemma linear_weighted_sum_update:
  assumes "k < length h"
  shows "linear_weighted_sum (h[k := x]) = linear_weighted_sum h + int k * (x - h ! k)"
proof -
  have "weighted (h[k := x]) = (weighted h)[k := x * int k]"
    using assms by (intro nth_equalityI) (auto simp: weighted_nth nth_list_update)
  then show ?thesis
    using assms sum_list_update_int [of k "weighted h" "x * int k"]
    by (simp add: sum_list_weighted [symmetric] weighted_nth algebra_simps)
qed

lemma weighted_zeros: "weighted (replicate n 0) = replicate n 0"
  by (rule nth_equalityI) (simp_all add: weighted_nth)

lemma linear_weighted_sum_zeros: "linear_weighted_sum (replicate n 0) = 0"
  by (simp add: sum_list_weighted [symmetric] weighted_zeros sum_list_replicate)

section \<open>A body that completes\<close>

lemma sample_body_pow2:
  assumes len: "length (cells hp ah) = 2 ^ k" and big: "255 \<le> (2::nat) ^ k"
    and nonneg: "\<forall>x\<in>set (cells hp ah). 0 \<le> x" and pos: "0 < sum_list (cells hp ah)"
    and ah: "ah < top hp"
    and q: "\<bar>real_of_int (linear_weighted_sum (cells hp ah)) / 2073600\<bar> < float_limit"
    and v: "2 powr ((real_of_int (linear_weighted_sum (cells hp ah)) / 2073600 - 1) / 254 * llr
              + minLogLum) < float_limit"
  shows "snd (sample_body ah hp) =
    Inr \<lparr>pixels = sum_list (cells hp ah),
         weighted_sum = linear_weighted_sum (cells hp ah),
         wla = real_of_int (linear_weighted_sum (cells hp ah)) / 2073600 - 1,
         wal = 2 powr ((real_of_int (linear_weighted_sum (cells hp ah)) / 2073600 - 1) / 254 * llr
              + minLogLum)\<rparr>"
proof -
  have "\<forall>i\<in>set [0..<255]. i < length (cells hp ah)" using len big by simp
  then have pl: "print_loop (cells hp ah) (sum_list (cells hp ah)) [0..<255] = None"
    by (rule print_loop_ok [OF nonneg pos])
  obtain hp' where red: "reduction ah hp = (hp', top hp, None)"
    and l: "length (cells hp' (top hp)) = 2 ^ k"
    and s: "cells hp' (top hp) ! 0 = linear_weighted_sum (cells hp ah)"
    using reduction_pow2 [OF len ah] by blast
  have g: "getitem (cells hp' (top hp)) 0 = Inr (linear_weighted_sum (cells hp ah))"
    using l s by (simp add: getitem_def)
  have d: "int_truediv (linear_weighted_sum (cells hp ah)) (max (1920 * 1080) 1) =
      Inr (real_of_int (linear_weighted_sum (cells hp ah)) / 2073600)"
    using q by (simp add: int_truediv_def)
  show ?thesis
    using v d by (simp add: sample_body_def pl red g pow2_def Let_def)
qed

lemma two_powr_neg: "x \<le> 0 \<Longrightarrow> 2 powr x < float_limit"
proof -
  assume "x \<le> 0"
  then have "(2::real) powr x \<le> 2 powr 0" by (intro powr_mono) simp_all
  then show ?thesis using float_limit_big by simp
qed

lemma two_powr_approx: "0.2102 < (2::real) powr (- 2.25)" "(2::real) powr (- 2.25) < 0.2103"
proof -
  define y :: real where "y = 2 powr (- 2.25)"
  have y0: "0 \<le> y" by (simp add: y_def)
  have "y ^ 4 = 2 powr (of_nat 4 * (- 2.25))"
    unfolding y_def by (rule powr_power) simp
  also have "\<dots> = 2 powr (- 9)" by simp
  also have "\<dots> = inverse (2 powr 9)" by (rule powr_minus)
  also have "\<dots> = 1 / 512" by simp
  finally have y4: "y ^ 4 = 1 / 512" .
  have "(0.2102::real) ^ 4 < 1 / 512" by (simp add: power4_eq_xxxx)
  then have "(0.2102::real) ^ 4 < y ^ 4" by (simp only: y4)
  then show "0.2102 < (2::real) powr (- 2.25)"
    using y0 unfolding y_def [symmetric] by (rule power_less_imp_less_base)
  have "1 / 512 < (0.2103::real) ^ 4" by (simp add: power4_eq_xxxx)
  then have "y ^ 4 < (0.2103::real) ^ 4" by (simp only: y4)
  then show "(2::real) powr (- 2.25) < 0.2103"
    unfolding y_def [symmetric] by (rule power_less_imp_less_base) simp
qed

lemma linear_weighted_sum_bin_0: "linear_weighted_sum (n # replicate m 0) = 0"
proof -
  have "weighted (n # replicate m 0) = replicate (Suc m) 0"
  proof (rule nth_equalityI)
    show "length (weighted (n # replicate m 0)) = length (replicate (Suc m) (0::int))" by simp
    fix i assume "i < length (weighted (n # replicate m 0))"
    then show "weighted (n # replicate m 0) ! i = replicate (Suc m) 0 ! i"
      by (cases i) (simp_all add: weighted_nth)
  qed
  then show ?thesis
    by (simp add: sum_list_weighted [symmetric] sum_list_replicate del: replicate_Suc)
qed

lemma sample_body_bin_0:
  assumes h: "cells hp ah = n # replicate (2 ^ k - 1) 0" and n: "0 < n" and k: "8 \<le> k"
    and ah: "ah < top hp"
  shows "snd (sample_body ah hp) =
    Inr \<lparr>pixels = n, weighted_sum = 0, wla = - 1, wal = 2 powr ((- 1 / 254) * llr + minLogLum)\<rparr>"
proof -
  have len: "length (cells hp ah) = 2 ^ k" by (simp add: h)
  have "(2::nat) ^ 8 \<le> 2 ^ k" using k by (intro power_increasing) simp_all
  then have big: "255 \<le> (2::nat) ^ k" by simp
  have w: "linear_weighted_sum (cells hp ah) = 0" by (simp add: h linear_weighted_sum_bin_0)
  have s: "sum_list (cells hp ah) = n" by (simp add: h sum_list_replicate)
  have "snd (sample_body ah hp) =
    Inr \<lparr>pixels = sum_list (cells hp ah),
         weighted_sum = linear_weighted_sum (cells hp ah),
         wla = real_of_int (linear_weighted_sum (cells hp ah)) / 2073600 - 1,
         wal = 2 powr ((real_of_int (linear_weighted_sum (cells hp ah)) / 2073600 - 1) / 254 * llr
              + minLogLum)\<rparr>"
  proof (rule sample_body_pow2 [OF len big _ _ ah])
    show "\<forall>x\<in>set (cells hp ah). 0 \<le> x" using n by (auto simp: h)
    show "0 < sum_list (cells hp ah)" using n by (simp add: s)
    show "\<bar>real_of_int (linear_weighted_sum (cells hp ah)) / 2073600\<bar> < float_limit"
      using float_limit_big by (simp add: w)
    show "2 powr ((real_of_int (linear_weighted_sum (cells hp ah)) / 2073600 - 1) / 254 * llr
        + minLogLum) < float_limit"
      by (rule two_powr_neg) (simp add: w llr_def minLogLum_def maxLogLum_def)
  qed
  then show ?thesis by (simp add: w s)
qed

lemma reduction_increase:
  assumes len: "length (cells hp ah) = 2 ^ m" and ah: "ah < top hp" and k: "k < 2 ^ m"
  shows "\<exists>hp1 hp2.
      reduction ah hp = (hp1, top hp, None) \<and>
      reduction ah (store ah ((cells hp ah)[k := cells hp ah ! k + d]) hp) = (hp2, top hp, None) \<and>
      cells hp2 (top hp) ! 0 = cells hp1 (top hp) ! 0 + int k * d"
proof -
  define h where "h = cells hp ah"
  define hq where "hq = store ah (h[k := h ! k + d]) hp"
  obtain hp1 where r1: "reduction ah hp = (hp1, top hp, None)"
    and s1: "cells hp1 (top hp) ! 0 = linear_weighted_sum h"
    using reduction_pow2 [OF len ah] unfolding h_def by blast
  have lenq: "length (cells hq ah) = 2 ^ m" using len by (simp add: hq_def h_def)
  have ahq: "ah < top hq" using ah by (simp add: hq_def)
  obtain hp2 where r2: "reduction ah hq = (hp2, top hq, None)"
    and s2: "cells hp2 (top hq) ! 0 = linear_weighted_sum (cells hq ah)"
    using reduction_pow2 [OF lenq ahq] by blast
  have "k < length h" using k len by (simp add: h_def)
  then have "linear_weighted_sum (cells hq ah) = linear_weighted_sum h + int k * d"
    by (simp add: hq_def linear_weighted_sum_update)
  then show ?thesis
    using r1 s1 r2 s2 by (simp add: hq_def h_def)
qed

section \<open>The claims\<close>

text \<open>
  C1, as stated, fails on the source: the claim has the levels of the reduction, with the
  fold clamped, leave the linear weighted sum in \<open>weighted[0]\<close> on 255 entries. The
  source's fold has no clamp. On the histogram of 255 ones it raises \<open>IndexError\<close>;
  the clamped loops of the specification would have left the sum.
\<close>

theorem reduction_ones_255:
  "snd (snd (reduction 0 (heap_of (replicate 255 1)))) = Some IndexError \<and>
   spec_reduction (replicate 255 1) ! 0 = linear_weighted_sum (replicate 255 1)"
proof -
  have "snd (snd (reduction 0 (heap_of (replicate 255 1)))) = Some IndexError"
    by (rule reduction_odd_length) simp_all
  moreover have "spec_reduction (replicate 255 1) ! 0 = linear_weighted_sum (replicate 255 1)"
    by (rule spec_reduction_255) simp
  ultimately show ?thesis by simp
qed

text \<open>
  C1, amended: on every histogram whose length is a power of two, 256 among them, the
  source's reduction completes, \<^verbatim>\<open>histogramShared\<close> ends as the clamped loops of the
  specification would leave it (no partner index is out of range on such a length), and
  its entry 0 is the linear weighted sum.
\<close>

theorem reduction_power_of_two:
  "length (cells hp ah) = 2 ^ k \<Longrightarrow> ah < top hp \<Longrightarrow>
   (\<exists>hp'. reduction ah hp = (hp', top hp, None) \<and>
      cells hp' (top hp) = spec_reduction (cells hp ah) \<and>
      cells hp' (top hp) ! 0 = linear_weighted_sum (cells hp ah))"
proof -
  assume len: "length (cells hp ah) = 2 ^ k" and ah: "ah < top hp"
  obtain hp' where r: "reduction ah hp = (hp', top hp, None)"
    and s: "cells hp' (top hp) ! 0 = linear_weighted_sum (cells hp ah)"
    using reduction_pow2 [OF len ah] by blast
  have "cells hp' (top hp) = spec_reduction (cells hp ah)"
    using reduction_None [OF ah] r by simp
  with r s show ?thesis by simp
qed

theorem reduction_power_of_two_witness:
  "length (cells (heap_of (replicate 256 1)) 0) = 2 ^ 8 \<and>
   0 < top (heap_of (replicate 256 1)) \<and>
   (\<exists>hp'. reduction 0 (heap_of (replicate 256 1)) = (hp', 1, None) \<and>
      cells hp' 1 = spec_reduction (replicate 256 1) \<and>
      cells hp' 1 ! 0 = linear_weighted_sum (replicate 256 1))"
  using reduction_power_of_two [of "heap_of (replicate 256 1)" 0 8] by simp

text \<open>
  C2, as stated, fails: \<open>colorToBin\<close> is said to return a bin between 0 and 254 and never
  255. On \<open>(20, 20, 20)\<close> the luminance is 17, the clamped \<open>logLum\<close> is 1, and the
  result is 255.
\<close>

theorem colorToBin_20_20_20: "colorToBin 20 20 20 = Inr 255"
proof -
  have l: "lum 20 20 20 = 17" by (simp add: lum_def)
  show ?thesis using colorToBin_top [of 20 20 20] two_powr_35_le_17 by (simp add: l)
qed

text \<open>
  C2, amended: whenever \<open>colorToBin\<close> returns a bin, the bin is between 0 and 255; and
  past the threshold it returns 255 when the clamped \<open>logLum\<close> is 1.
\<close>

theorem colorToBin_range:
  "(colorToBin r g b = Inr k \<longrightarrow> 0 \<le> k \<and> k \<le> 255) \<and>
   (0.005 \<le> lum r g b \<and> logLum (log 2 (lum r g b)) = 1 \<longrightarrow> colorToBin r g b = Inr 255)"
proof -
  have range: "0 \<le> k \<and> k \<le> 255" if ret: "colorToBin r g b = Inr k"
  proof -
    consider "lum r g b \<le> 0" | "0 < lum r g b" "lum r g b < 0.005" | "0.005 \<le> lum r g b"
      by linarith
    then show ?thesis
    proof cases
      case 1
      then show ?thesis using ret by (simp add: colorToBin_nonpos)
    next
      case 2
      then show ?thesis using ret by (simp add: colorToBin_black)
    next
      case 3
      obtain k' where "colorToBin r g b = Inr k'" "8 \<le> k'" "k' \<le> 255"
        using colorToBin_bin_range [OF 3] by blast
      then show ?thesis using ret by simp
    qed
  qed
  have top: "colorToBin r g b = Inr 255"
    if "0.005 \<le> lum r g b" and "logLum (log 2 (lum r g b)) = 1"
    using that by (simp add: colorToBin_bin)
  show ?thesis using range top by blast
qed

theorem colorToBin_range_witness:
  "0.005 \<le> lum 100 100 100 \<and> logLum (log 2 (lum 100 100 100)) = 1 \<and>
   colorToBin 100 100 100 = Inr 255 \<and> (0::int) \<le> 255 \<and> (255::int) \<le> 255"
proof -
  have l: "lum 100 100 100 = 85" by (simp add: lum_def)
  have "2 powr 3.5 \<le> (85::real)" using two_powr_35_le_17 by linarith
  then have one: "logLum (log 2 (lum 100 100 100)) = 1"
    using logLum_one [of 85] by (simp add: l)
  have ge: "0.005 \<le> lum 100 100 100" by (simp add: l)
  show ?thesis
    using colorToBin_range [of 100 100 100 255] one ge by simp
qed

text \<open>
  C3 (the code departs from it). The claim: \<open>colorToBin\<close> never fails, and below the
  threshold it returns bin 0 without taking a logarithm. On \<open>(0, 0, 0)\<close> the luminance
  is 0, below the threshold, and the logarithm printed before the test raises
  \<open>ValueError\<close>.
\<close>

theorem colorToBin_0_0_0: "colorToBin 0 0 0 = Inl ValueError \<and> lum 0 0 0 < 0.005"
  by (simp add: colorToBin_nonpos lum_def)

text \<open>
  C4, as stated, fails: a zero-sum histogram is said to fail with a dedicated error raised
  before any division. On 255 zeros the body fails with \<open>ZeroDivisionError\<close>, and it is
  the division of the first bin by the pixel count that raises it.
\<close>

theorem zero_sum_ZeroDivisionError:
  "sample_body 0 (heap_of (replicate 255 0)) =
     (heap_of (replicate 255 0), Inl ZeroDivisionError) \<and>
   int_truediv (replicate 255 0 ! 0) (sum_list (replicate 255 0)) = Inl ZeroDivisionError"
proof -
  have "sample_body 0 (heap_of (replicate 255 0)) =
      (heap_of (replicate 255 0), Inl ZeroDivisionError)"
    by (rule sample_body_zero_sum) (simp_all add: sum_list_replicate)
  then show ?thesis by (simp add: int_truediv_def sum_list_replicate)
qed

text \<open>
  C4, amended: on a histogram with at least one entry the body fails with
  \<open>ZeroDivisionError\<close> exactly when the entries sum to 0; the error is raised, after the
  sum, by the division of the first bin by the pixel count, no statistic is returned and
  the store is as it was.
\<close>

theorem ZeroDivisionError_iff_zero_sum:
  "cells hp ah \<noteq> [] \<Longrightarrow>
   (snd (sample_body ah hp) = Inl ZeroDivisionError) = (sum_list (cells hp ah) = 0) \<and>
   (sum_list (cells hp ah) = 0 \<longrightarrow>
      int_truediv (cells hp ah ! 0) (sum_list (cells hp ah)) = Inl ZeroDivisionError \<and>
      fst (sample_body ah hp) = hp)"
  using sample_body_zero_sum [of hp ah] sample_body_no_zero_division [of hp ah]
  by (auto simp: int_truediv_def)

theorem ZeroDivisionError_iff_zero_sum_witness:
  "cells (heap_of (replicate 255 0)) 0 \<noteq> [] \<and>
   sum_list (cells (heap_of (replicate 255 0)) 0) = 0 \<and>
   snd (sample_body 0 (heap_of (replicate 255 0))) = Inl ZeroDivisionError \<and>
   fst (sample_body 0 (heap_of (replicate 255 0))) = heap_of (replicate 255 0)"
  using ZeroDivisionError_iff_zero_sum [of "heap_of (replicate 255 0)" 0]
  by (simp add: sum_list_replicate)

text \<open>
  C5, as stated, fails: with 2073600 samples in bin 128 of 255 bins the statistics are said
  to be 2073600, 265420800, 127.0 and \<open>2 ** -2.25\<close>. The body computes the pixel count
  and then raises \<open>IndexError\<close> in the reduction.
\<close>

theorem scenario_bin_128:
  "sum_list ((replicate 255 0)[128 := 2073600]) = (2073600::int) \<and>
   snd (sample_body 0 (heap_of ((replicate 255 0)[128 := 2073600]))) = Inl IndexError"
proof -
  have n: "\<forall>x\<in>set ((replicate 255 0)[128 := 2073600::int]). 0 \<le> x"
    using set_update_subset_insert [of "replicate 255 (0::int)" 128 2073600] by auto
  have s: "sum_list ((replicate 255 0)[128 := 2073600::int]) = 2073600"
    by (simp add: sum_list_update_int sum_list_replicate)
  have "snd (sample_body 0 (heap_of ((replicate 255 0)[128 := 2073600]))) = Inl IndexError"
    by (rule sample_body_255) (use n s in simp_all)
  with s show ?thesis by simp
qed

text \<open>
  C5, amended: with the 2073600 samples in bin 128 of 256 bins the body returns the pixel
  count 2073600, the weighted sum 265420800, the normalized log luminance 127 and the
  average luminance \<open>2 powr -2.25\<close>, which lies between 0.2102 and 0.2103.
\<close>

theorem scenario_256:
  "snd (sample_body 0 (heap_of ((replicate 256 0)[128 := 2073600]))) =
     Inr \<lparr>pixels = 2073600, weighted_sum = 265420800, wla = 127, wal = 2 powr (- 2.25)\<rparr> \<and>
   0.2102 < (2::real) powr (- 2.25) \<and> (2::real) powr (- 2.25) < 0.2103"
proof -
  define h :: "int list" where "h = (replicate 256 0)[128 := 2073600]"
  have n: "\<forall>x\<in>set h. 0 \<le> x"
    using set_update_subset_insert [of "replicate 256 (0::int)" 128 2073600]
    by (auto simp: h_def)
  have s: "sum_list h = 2073600"
    by (simp add: h_def sum_list_update_int sum_list_replicate)
  have w: "linear_weighted_sum h = 265420800"
    by (simp add: h_def linear_weighted_sum_update linear_weighted_sum_zeros)
  have e: "(real_of_int 265420800 / 2073600 - 1) / 254 * llr + minLogLum = - 2.25"
    by (simp add: llr_def minLogLum_def maxLogLum_def)
  have "snd (sample_body 0 (heap_of h)) =
    Inr \<lparr>pixels = sum_list (cells (heap_of h) 0),
         weighted_sum = linear_weighted_sum (cells (heap_of h) 0),
         wla = real_of_int (linear_weighted_sum (cells (heap_of h) 0)) / 2073600 - 1,
         wal = 2 powr ((real_of_int (linear_weighted_sum (cells (heap_of h) 0)) / 2073600 - 1)
              / 254 * llr + minLogLum)\<rparr>"
  proof (rule sample_body_pow2 [where k = 8])
    show "length (cells (heap_of h) 0) = 2 ^ 8" by (simp add: h_def)
    show "255 \<le> (2::nat) ^ 8" by simp
    show "\<forall>x\<in>set (cells (heap_of h) 0). 0 \<le> x" using n by simp
    show "0 < sum_list (cells (heap_of h) 0)" by (simp add: s)
    show "0 < top (heap_of h)" by simp
    show "\<bar>real_of_int (linear_weighted_sum (cells (heap_of h) 0)) / 2073600\<bar> < float_limit"
      using float_limit_big by (simp add: w)
    show "2 powr ((real_of_int (linear_weighted_sum (cells (heap_of h) 0)) / 2073600 - 1)
        / 254 * llr + minLogLum) < float_limit"
      by (rule two_powr_neg) (simp add: w llr_def minLogLum_def maxLogLum_def)
  qed
  then have "snd (sample_body 0 (heap_of h)) =
     Inr \<lparr>pixels = 2073600, weighted_sum = 265420800, wla = 127, wal = 2 powr (- 2.25)\<rparr>"
    using e by (simp add: s w)
  then show ?thesis
    using two_powr_approx by (simp add: h_def)
qed

text \<open>
  C6, as stated, fails: with bin 0 alone populated the normalized log luminance is said to
  be \<open>-1.0\<close>. On 255 bins with 1000 samples in bin 0 every weighted entry is 0, and the
  body raises \<open>IndexError\<close> in the reduction.
\<close>

theorem only_bin_0:
  "weighted ((replicate 255 0)[0 := 1000]) = replicate 255 0 \<and>
   snd (sample_body 0 (heap_of ((replicate 255 0)[0 := 1000]))) = Inl IndexError"
proof -
  have n: "\<forall>x\<in>set ((replicate 255 0)[0 := 1000::int]). 0 \<le> x"
    using set_update_subset_insert [of "replicate 255 (0::int)" 0 1000] by auto
  have s: "sum_list ((replicate 255 0)[0 := 1000::int]) = 1000"
    by (simp add: sum_list_update_int sum_list_replicate)
  have w: "weighted ((replicate 255 0)[0 := 1000]) = replicate 255 0"
    by (rule nth_equalityI) (auto simp: weighted_nth nth_list_update)
  have "snd (sample_body 0 (heap_of ((replicate 255 0)[0 := 1000]))) = Inl IndexError"
    by (rule sample_body_255) (use n s in simp_all)
  with w show ?thesis by simp
qed

text \<open>
  C6, amended: on a histogram whose length is a power of two, at least 256, with \<open>n > 0\<close>
  samples in bin 0 and none elsewhere, the body returns the weighted sum 0 and the
  normalized log luminance \<open>-1\<close>.
\<close>

theorem only_bin_0_power_of_two:
  "cells hp ah = n # replicate (2 ^ k - 1) 0 \<Longrightarrow> 0 < n \<Longrightarrow> 8 \<le> k \<Longrightarrow> ah < top hp \<Longrightarrow>
   snd (sample_body ah hp) =
     Inr \<lparr>pixels = n, weighted_sum = 0, wla = - 1,
          wal = 2 powr ((- 1 / 254) * llr + minLogLum)\<rparr>"
  by (rule sample_body_bin_0)

theorem only_bin_0_power_of_two_witness:
  "cells (heap_of (1000 # replicate (2 ^ 8 - 1) 0)) 0 = 1000 # replicate (2 ^ 8 - 1) 0 \<and>
   (0::int) < 1000 \<and> (8::nat) \<le> 8 \<and> 0 < top (heap_of (1000 # replicate (2 ^ 8 - 1) 0)) \<and>
   snd (sample_body 0 (heap_of (1000 # replicate (2 ^ 8 - 1) 0))) =
     Inr \<lparr>pixels = 1000, weighted_sum = 0, wla = - 1,
          wal = 2 powr ((- 1 / 254) * llr + minLogLum)\<rparr>"
  using only_bin_0_power_of_two [of "heap_of (1000 # replicate (2 ^ 8 - 1) 0)" 0 1000 8]
  by simp

text \<open>
  C7, as stated, fails: raising one bin with a positive index is said never to lower the
  reduced sum. On 255 bins there is no reduced sum to compare: the reduction raises
  \<open>IndexError\<close> before and after bin 3 is raised from 2 to 7.
\<close>

theorem increased_bin_3:
  "snd (snd (reduction 0 (heap_of (replicate 255 2)))) = Some IndexError \<and>
   snd (snd (reduction 0 (heap_of ((replicate 255 2)[3 := 7])))) = Some IndexError"
proof -
  have "snd (snd (reduction 0 (heap_of (replicate 255 2)))) = Some IndexError"
    by (rule reduction_odd_length) simp_all
  moreover have "snd (snd (reduction 0 (heap_of ((replicate 255 2)[3 := 7])))) = Some IndexError"
    by (rule reduction_odd_length) simp_all
  ultimately show ?thesis by simp
qed

text \<open>
  C7, amended: on a histogram whose length is a power of two the reduction completes
  before and after bin \<open>k\<close> is raised by \<open>d > 0\<close>, and the reduced sum grows by
  \<open>k * d\<close>, so it does not decrease.
\<close>

theorem reduction_monotone:
  "length (cells hp ah) = 2 ^ m \<Longrightarrow> ah < top hp \<Longrightarrow> k < 2 ^ m \<Longrightarrow> 0 < d \<Longrightarrow>
   (\<exists>hp1 hp2.
      reduction ah hp = (hp1, top hp, None) \<and>
      reduction ah (store ah ((cells hp ah)[k := cells hp ah ! k + d]) hp) =
        (hp2, top hp, None) \<and>
      cells hp2 (top hp) ! 0 = cells hp1 (top hp) ! 0 + int k * d \<and>
      cells hp1 (top hp) ! 0 \<le> cells hp2 (top hp) ! 0)"
proof -
  assume len: "length (cells hp ah) = 2 ^ m" and ah: "ah < top hp" and k: "k < 2 ^ m"
    and d: "0 < d"
  obtain hp1 hp2 where r: "reduction ah hp = (hp1, top hp, None)"
    "reduction ah (store ah ((cells hp ah)[k := cells hp ah ! k + d]) hp) = (hp2, top hp, None)"
    "cells hp2 (top hp) ! 0 = cells hp1 (top hp) ! 0 + int k * d"
    using reduction_increase [OF len ah k, of d] by blast
  have "0 \<le> int k * d" using d by simp
  with r show ?thesis by simp
qed

theorem reduction_monotone_witness:
  "length (cells (heap_of (replicate 256 2)) 0) = 2 ^ 8 \<and>
   0 < top (heap_of (replicate 256 2)) \<and> (3::nat) < 2 ^ 8 \<and> (0::int) < 5 \<and>
   (\<exists>hp1 hp2.
      reduction 0 (heap_of (replicate 256 2)) = (hp1, 1, None) \<and>
      reduction 0 (store 0 ((replicate 256 2)[3 := 7]) (heap_of (replicate 256 2))) =
        (hp2, 1, None) \<and>
      cells hp2 1 ! 0 = cells hp1 1 ! 0 + int 3 * 5 \<and>
      cells hp1 1 ! 0 \<le> cells hp2 1 ! 0)"
  using reduction_monotone [of "heap_of (replicate 256 2)" 0 8 3 5] by simp

text \<open>
  C8: the reduction, and the whole body with it, leaves the histogram object as it was; the
  folds write to the list the comprehension has just allocated. This holds whether or not
  an exception ends the run.
\<close>

theorem histogram_unchanged:
  "ah < top hp \<Longrightarrow>
   cells (fst (reduction ah hp)) ah = cells hp ah \<and>
   cells (fst (sample_body ah hp)) ah = cells hp ah"
  by (simp add: reduction_other sample_body_other)

theorem histogram_unchanged_witness:
  "0 < top (heap_of (replicate 255 1)) \<and>
   cells (fst (reduction 0 (heap_of (replicate 255 1)))) 0 = replicate 255 1 \<and>
   cells (fst (sample_body 0 (heap_of (replicate 255 1)))) 0 = replicate 255 1"
  using histogram_unchanged [of 0 "heap_of (replicate 255 1)"] by simp

text \<open>
  C9: on every histogram of 255 entries the reduction raises \<open>IndexError\<close>. The first
  cutoff is 128, and the partner of \<open>j = 127\<close> is the index 255, one past the end.
\<close>

theorem reduction_fails_at_255:
  "length (cells hp ah) = 255 \<Longrightarrow>
   cutoff_of 255 1 = 128 \<and>
   getitem (weighted (cells hp ah)) (127 + cutoff_of 255 1) = Inl IndexError \<and>
   snd (snd (reduction ah hp)) = Some IndexError"
proof -
  assume l: "length (cells hp ah) = 255"
  have c: "cutoff_of 255 1 = 128" by (simp add: cutoff_of_def)
  have "snd (snd (reduction ah hp)) = Some IndexError"
    by (rule reduction_odd_length) (simp_all add: l)
  with c l show ?thesis by (simp add: getitem_def)
qed

theorem reduction_fails_at_255_witness:
  "length (cells (heap_of (replicate 255 1)) 0) = 255 \<and>
   snd (snd (reduction 0 (heap_of (replicate 255 1)))) = Some IndexError"
  using reduction_fails_at_255 [of "heap_of (replicate 255 1)" 0] by simp

text \<open>
  C10: \<open>colorToBin\<close> never returns a bin from 1 to 7. It raises for a luminance that
  is not positive, returns 0 below the threshold 0.005, and from the threshold on the
  clamped \<open>logLum\<close> is at least \<open>7 / 254\<close>, so the bin is between 8 and 255.
\<close>

theorem colorToBin_dead_bins:
  "(lum r g b \<le> 0 \<and> colorToBin r g b = Inl ValueError) \<or>
   (0 < lum r g b \<and> lum r g b < 0.005 \<and> colorToBin r g b = Inr 0) \<or>
   (0.005 \<le> lum r g b \<and> 7 / 254 \<le> logLum (log 2 (lum r g b)) \<and>
    (\<exists>k. colorToBin r g b = Inr k \<and> 8 \<le> k \<and> k \<le> 255))"
proof -
  consider "lum r g b \<le> 0" | "0 < lum r g b" "lum r g b < 0.005" | "0.005 \<le> lum r g b"
    by linarith
  then show ?thesis
  proof cases
    case 1
    then show ?thesis by (simp add: colorToBin_nonpos)
  next
    case 2
    then show ?thesis by (simp add: colorToBin_black)
  next
    case 3
    then show ?thesis using colorToBin_bin_range [OF 3] logLum_lower [OF 3] by simp
  qed
qed

end
